theory Spec2Isabelle
  imports Main "HOL-Library.Word"
begin

unbundle bit_operations_syntax

section \<open>EMV card reading of the PN532 component\<close>

text \<open>
  A shallow embedding of \<^verbatim>\<open>esphome/components/pn532/pn532_mifare_plus.cpp\<close>.
  A vector of \<^verbatim>\<open>uint8_t\<close> is a list of 8-bit words, \<^verbatim>\<open>uint16_t\<close> is a 16-bit word.
  Indexing a vector outside its bounds is undefined behaviour in C++; here every read goes
  through \<open>vec_at\<close>, which makes it the error \<open>OutOfRange\<close>. A loop whose counter is a
  \<^verbatim>\<open>uint8_t\<close> that may wrap around is a partial function: not returning is \<open>None\<close>.
\<close>

type_synonym u8 = "8 word"
type_synonym u16 = "16 word"

datatype error = OutOfRange

definition vec_at :: "u8 list \<Rightarrow> nat \<Rightarrow> error + u8" where
  "vec_at v i = (if i < length v then Inr (v ! i) else Inl OutOfRange)"

subsection \<open>Track data parsers (lines 12--90)\<close>

text \<open>
  \<^verbatim>\<open>parse_nibbles\<close>: the while loop of lines 16--26, with \<open>pos\<close> a \<^verbatim>\<open>uint8_t\<close>.
  Both \<^verbatim>\<open>break\<close>s and the exit by the loop condition hand \<open>(pos, result)\<close> to the
  check of line 27.
\<close>

partial_function (option) parse_nibbles_loop ::
  "u8 list \<Rightarrow> u8 \<Rightarrow> u8 \<Rightarrow> u8 list \<Rightarrow> (u8 \<times> u8 list) option" where
  "parse_nibbles_loop data terminator pos result =
     (if unat pos < length data then
        (let hi_nibble = drop_bit 4 (data ! unat pos);
             lo_nibble = (data ! unat pos) AND 0x0F
         in if hi_nibble = terminator then Some (pos, result)
            else (if lo_nibble = terminator then Some (pos, result @ [hi_nibble])
                  else parse_nibbles_loop data terminator (pos + 1)
                         (result @ [hi_nibble, lo_nibble])))
      else Some (pos, result))"

declare parse_nibbles_loop.simps [code]

definition parse_nibbles :: "u8 list \<Rightarrow> u8 \<Rightarrow> u8 list option" where
  "parse_nibbles data terminator =
     (case parse_nibbles_loop data terminator 0 [] of
        None \<Rightarrow> None
      | Some (pos, result) \<Rightarrow> if pos > 10 \<or> pos < 3 then Some [] else Some result)"

definition parse_track2 :: "u8 list \<Rightarrow> u8 list option" where
  "parse_track2 data = parse_nibbles data 0x0D"

definition parse_pan :: "u8 list \<Rightarrow> u8 list option" where
  "parse_pan data = parse_nibbles data 0x0F"

text \<open>
  \<^verbatim>\<open>parse_track1\<close>: \<open>parse_track1_check\<close> is the test of line 84 after the loop,
  \<open>parse_track1_loop\<close> the loop of lines 73--83 (\<open>0x5E\<close> is the caret, \<open>0x30\<close> and
  \<open>0x39\<close> are the digits 0 and 9, \<open>0x42\<close> is the letter B).
\<close>

definition parse_track1_check :: "u8 list \<Rightarrow> u8 \<Rightarrow> u8 list \<Rightarrow> u8 list" where
  "parse_track1_check data pos result =
     (if unat pos \<ge> length data \<or> pos > 20 then [] else result)"

partial_function (option) parse_track1_loop ::
  "u8 list \<Rightarrow> u8 \<Rightarrow> u8 list \<Rightarrow> u8 list option" where
  "parse_track1_loop data pos result =
     (if unat pos < length data then
        (let digit = data ! unat pos
         in if digit = 0x5E then Some (parse_track1_check data pos result)
            else (if digit < 0x30 \<or> digit > 0x39 then Some []
                  else parse_track1_loop data (pos + 1) (result @ [digit - 0x30])))
      else Some (parse_track1_check data pos result))"

declare parse_track1_loop.simps [code]

definition parse_track1 :: "u8 list \<Rightarrow> u8 list option" where
  "parse_track1 data =
     (if length data = 0 \<or> data ! 0 \<noteq> 0x42 then Some []
      else parse_track1_loop data 1 [])"

subsection \<open>BER-TLV search (lines 414--454)\<close>

text \<open>
  The tag header, read the same way in \<^verbatim>\<open>parseTags\<close> (lines 326--332),
  \<^verbatim>\<open>constructPdolData\<close> (lines 359--365) and \<^verbatim>\<open>findTag\<close> (lines 420--426):
  the tag and the number of bytes it took.
\<close>

definition read_tag :: "u8 list \<Rightarrow> error + (u16 \<times> nat)" where
  "read_tag v =
     (case vec_at v 0 of
        Inl e \<Rightarrow> Inl e
      | Inr b0 \<Rightarrow>
          if (ucast b0 :: u16) AND 0x1F = 0x1F
          then (case vec_at v 1 of
                  Inl e \<Rightarrow> Inl e
                | Inr b1 \<Rightarrow> Inr (push_bit 8 (ucast b0) + ucast b1, 2))
          else Inr (ucast b0, 1))"

text \<open>Lines 420--429 of \<^verbatim>\<open>findTag\<close>: tag, \<open>len\<close> and \<open>headerLen\<close>.\<close>

definition findTag_header :: "u8 list \<Rightarrow> error + (u16 \<times> nat \<times> nat)" where
  "findTag_header ber_data =
     (case read_tag ber_data of
        Inl e \<Rightarrow> Inl e
      | Inr (tag, h) \<Rightarrow>
          (case vec_at ber_data h of
             Inl e \<Rightarrow> Inl e
           | Inr len \<Rightarrow>
               if len AND 0x80 \<noteq> 0
               then (case vec_at ber_data (h + 1) of
                       Inl e \<Rightarrow> Inl e
                     | Inr len' \<Rightarrow> Inr (tag, unat len', h + 2))
               else Inr (tag, unat len, h + 1)))"

definition is_template :: "u16 \<Rightarrow> bool" where
  "is_template tag \<longleftrightarrow>
     tag = 0x6F \<or> tag = 0xA5 \<or> tag = 0xBF0C \<or> tag = 0x61 \<or> tag = 0x77 \<or> tag = 0x70"

text \<open>
  \<^verbatim>\<open>findTag\<close>. The first block (lines 431--442) returns the value when the tag matches,
  or a non-empty result of the search inside a template; in every other case control
  reaches the second block (lines 445--452), the search in the remaining data.
\<close>

function findTag :: "u8 list \<Rightarrow> u16 \<Rightarrow> error + u8 list" where
  "findTag ber_data tagToFind =
     (if length ber_data < 3 then Inr []
      else
        (case findTag_header ber_data of
           Inl e \<Rightarrow> Inl e
         | Inr (tag, len, headerLen) \<Rightarrow>
             if len + headerLen \<le> length ber_data \<and> tag = tagToFind
             then Inr (take len (drop headerLen ber_data))
             else
               (case (if len + headerLen \<le> length ber_data \<and> is_template tag
                      then findTag (take len (drop headerLen ber_data)) tagToFind
                      else Inr []) of
                  Inl e \<Rightarrow> Inl e
                | Inr tagValue \<Rightarrow>
                    if tagValue \<noteq> [] then Inr tagValue
                    else if len + headerLen < length ber_data
                    then (case findTag (drop (headerLen + len) ber_data) tagToFind of
                            Inl e \<Rightarrow> Inl e
                          | Inr tagValue' \<Rightarrow>
                              if tagValue' \<noteq> [] then Inr tagValue' else Inr [])
                    else Inr [])))"
  by pat_completeness auto
termination
  by (relation "measure (\<lambda>(ber_data, tagToFind). length ber_data)")
     (auto simp: findTag_header_def read_tag_def vec_at_def
           split: sum.splits if_splits)

declare findTag.simps [simp del]

subsection \<open>The traversal of section 4.1 of the specification\<close>

text \<open>
  Written from the words of the specification, to compare \<open>findTag\<close> with:
  \<open>spec_decode_node\<close> decodes the first node of a buffer (tag header, length with one
  extra byte in long form, value slice inside the buffer) and \<open>spec_nodes\<close> lists the
  nodes in depth-first order: the node, the nodes of its value if its tag is constructed,
  the nodes of the remaining sibling buffer.
\<close>

definition spec_decode_node :: "u8 list \<Rightarrow> (u16 \<times> u8 list \<times> u8 list) option" where
  "spec_decode_node buffer =
     (if length buffer < 3 then None
      else
        (let wide = ((buffer ! 0) AND 0x1F = 0x1F);
             tag = (if wide then push_bit 8 (ucast (buffer ! 0)) OR ucast (buffer ! 1)
                    else ucast (buffer ! 0));
             lpos = (if wide then 2 else 1 :: nat);
             long = ((buffer ! lpos) AND 0x80 \<noteq> 0)
         in if long \<and> length buffer \<le> lpos + 1 then None
            else
              (let len = unat (buffer ! (if long then lpos + 1 else lpos));
                   hdr = (if long then lpos + 2 else lpos + 1)
               in if hdr + len \<le> length buffer
                  then Some (tag, take len (drop hdr buffer), drop (hdr + len) buffer)
                  else None)))"

function spec_nodes :: "u8 list \<Rightarrow> (u16 \<times> u8 list) list" where
  "spec_nodes buffer =
     (case spec_decode_node buffer of
        None \<Rightarrow> []
      | Some (tag, val, rest) \<Rightarrow>
          (tag, val) # (if is_template tag then spec_nodes val else []) @ spec_nodes rest)"
  by pat_completeness auto
termination
  by (relation "measure length")
     (auto simp: spec_decode_node_def Let_def split: if_splits)

declare spec_nodes.simps [simp del]

definition spec_find_tag :: "u8 list \<Rightarrow> u16 \<Rightarrow> u8 list" where
  "spec_find_tag buffer target =
     (case find (\<lambda>n. fst n = target) (spec_nodes buffer) of
        None \<Rightarrow> []
      | Some n \<Rightarrow> snd n)"

text \<open>
  The search as amended: the nodes are met in the same depth-first order, but a node
  that carries the target tag is not searched inside and ends the search of its own
  sibling buffer; the result is the first non-empty value of a node with the target tag
  among the nodes met, and empty if there is none.
\<close>

function spec_visited :: "u8 list \<Rightarrow> u16 \<Rightarrow> (u16 \<times> u8 list) list" where
  "spec_visited buffer target =
     (case spec_decode_node buffer of
        None \<Rightarrow> []
      | Some (tag, val, rest) \<Rightarrow>
          (tag, val) #
          (if tag = target then []
           else (if is_template tag then spec_visited val target else []) @
                spec_visited rest target))"
  by pat_completeness auto
termination
  by (relation "measure (\<lambda>(buffer, target). length buffer)")
     (auto simp: spec_decode_node_def Let_def split: if_splits)

declare spec_visited.simps [simp del]

definition spec_search :: "u8 list \<Rightarrow> u16 \<Rightarrow> u8 list" where
  "spec_search buffer target =
     (case find (\<lambda>n. fst n = target \<and> snd n \<noteq> []) (spec_visited buffer target) of
        None \<Rightarrow> []
      | Some n \<Rightarrow> snd n)"


text \<open>
  The nibbles of a buffer, high before low, and the digits that section 4.2 of the
  specification describes: the nibbles before the first terminator nibble.
\<close>

definition spec_nibbles :: "u8 list \<Rightarrow> u8 list" where
  "spec_nibbles data = concat (map (\<lambda>b. [drop_bit 4 b, b AND 0x0F]) data)"

definition spec_digits :: "u8 list \<Rightarrow> u8 \<Rightarrow> u8 list" where
  "spec_digits data terminator = takeWhile (\<lambda>n. n \<noteq> terminator) (spec_nibbles data)"

text \<open>
  Track 1 as section 4.2 describes it: the bytes between the leading B and the first
  caret, the five reasons to reject (with the greatest accepted number of digit bytes as
  a parameter), and the digit values.
\<close>

definition spec_track1_digits :: "u8 list \<Rightarrow> u8 list" where
  "spec_track1_digits data = takeWhile (\<lambda>b. b \<noteq> 0x5E) (tl data)"

definition spec_track1_rejected :: "nat \<Rightarrow> u8 list \<Rightarrow> bool" where
  "spec_track1_rejected limit data \<longleftrightarrow>
     data = [] \<or> hd data \<noteq> 0x42 \<or>
     list_ex (\<lambda>b. b < 0x30 \<or> 0x39 < b) (spec_track1_digits data) \<or>
     length (spec_track1_digits data) = length (tl data) \<or>
     limit < length (spec_track1_digits data)"

definition spec_parse_track1 :: "nat \<Rightarrow> u8 list \<Rightarrow> u8 list" where
  "spec_parse_track1 limit data =
     (if spec_track1_rejected limit data then []
      else map (\<lambda>b. b - 0x30) (spec_track1_digits data))"

text \<open>
  The number of length bytes that a long-form length byte announces in BER-TLV
  (its low seven bits).
\<close>

definition spec_extra_length_bytes :: "u8 \<Rightarrow> nat" where
  "spec_extra_length_bytes l = unat (l AND 0x7F)"

subsection \<open>PDOL data (lines 353--412)\<close>

text \<open>
  The switch of lines 369--407. Case \<open>0x9A\<close> reads the clock and then assigns the
  constant date.
\<close>

definition pdol_value :: "u16 \<Rightarrow> u16 \<Rightarrow> u8 list" where
  "pdol_value tag len =
     (if tag = 0x9F66 then [0xF0, 0x20, 0x40, 0x00]
      else if tag = 0x9F02 \<or> tag = 0x9F03 then [0x00, 0x00, 0x00, 0x00, 0x10, 0x00]
      else if tag = 0x9F1A then [0x02, 0x76]
      else if tag = 0x5F2A then [0x09, 0x78]
      else if tag = 0x9A then [0x23, 0x11, 0x25]
      else if tag = 0x9F37 then [0xB5, 0x43, 0xFF, 0x89]
      else replicate (unat len) 0)"

text \<open>
  \<^verbatim>\<open>constructPdolData\<close> takes \<open>pdol\<close> by reference and erases from it, so the model
  returns the result together with the \<open>pdol\<close> the caller is left with. The erase of line
  409 stays inside the vector, since the read of \<open>len\<close> succeeded at index
  \<open>headerLen - 1\<close>.
\<close>

function constructPdolData_loop :: "u8 list \<Rightarrow> u8 list \<Rightarrow> error + (u8 list \<times> u8 list)" where
  "constructPdolData_loop pdol result =
     (if length pdol > 1 then
        (case read_tag pdol of
           Inl e \<Rightarrow> Inl e
         | Inr (tag, h) \<Rightarrow>
             (case vec_at pdol h of
                Inl e \<Rightarrow> Inl e
              | Inr len \<Rightarrow>
                  constructPdolData_loop (drop (h + 1) pdol)
                    (result @ pdol_value tag (ucast len))))
      else Inr (result, pdol))"
  by pat_completeness auto
termination
  by (relation "measure (\<lambda>(pdol, result). length pdol)") auto

declare constructPdolData_loop.simps [simp del]

definition constructPdolData :: "u8 list \<Rightarrow> error + (u8 list \<times> u8 list)" where
  "constructPdolData pdol =
     (if length pdol < 2 then Inr ([], pdol) else constructPdolData_loop pdol [])"

subsection \<open>The flattening decoder (lines 324--351)\<close>

text \<open>
  \<^verbatim>\<open>parseTags\<close> stores in the map the address \<^verbatim>\<open>tagValue.data()\<close> of a vector that
  is local to a block. The model keeps a store of the live vector buffers: \<open>alloc\<close> is
  the construction of a local vector, \<open>free\<close> its destruction at the end of its block,
  \<open>map_insert\<close> is \<^verbatim>\<open>std::map::insert\<close>, which keeps an entry that is already there.
\<close>

record pstate =
  tagMap :: "u16 \<rightharpoonup> nat"
  store :: "nat \<rightharpoonup> u8 list"
  fresh :: nat

definition alloc :: "u8 list \<Rightarrow> pstate \<Rightarrow> nat \<times> pstate" where
  "alloc v s = (fresh s, s\<lparr>store := (store s)(fresh s \<mapsto> v), fresh := fresh s + 1\<rparr>)"

definition free :: "nat \<Rightarrow> pstate \<Rightarrow> pstate" where
  "free a s = s\<lparr>store := (store s)(a := None)\<rparr>"

definition map_insert :: "u16 \<Rightarrow> nat \<Rightarrow> pstate \<Rightarrow> pstate" where
  "map_insert tag a s =
     (case tagMap s tag of
        None \<Rightarrow> s\<lparr>tagMap := (tagMap s)(tag \<mapsto> a)\<rparr>
      | Some _ \<Rightarrow> s)"

function parseTags :: "u8 list \<Rightarrow> pstate \<Rightarrow> error + pstate" where
  "parseTags ber_data s =
     (case read_tag ber_data of
        Inl e \<Rightarrow> Inl e
      | Inr (tag, h) \<Rightarrow>
          (case vec_at ber_data h of
             Inl e \<Rightarrow> Inl e
           | Inr len8 \<Rightarrow>
               (let len = unat len8; headerLen = h + 1 in
                (case (if length ber_data > len + headerLen
                       then (case alloc (drop (headerLen + len) ber_data) s of
                               (remainingData, s1) \<Rightarrow>
                                 (case parseTags (drop (headerLen + len) ber_data) s1 of
                                    Inl e \<Rightarrow> Inl e
                                  | Inr s2 \<Rightarrow> Inr (free remainingData s2)))
                       else Inr s) of
                   Inl e \<Rightarrow> Inl e
                 | Inr s3 \<Rightarrow>
                     if length ber_data \<ge> len + headerLen
                     then (case alloc (take len (drop headerLen ber_data)) s3 of
                             (tagValue, s4) \<Rightarrow>
                               if tag = 0x6F \<or> tag = 0xA5 \<or> tag = 0xBF0C \<or> tag = 0x61
                               then (case parseTags (take len (drop headerLen ber_data))
                                            (map_insert tag tagValue s4) of
                                       Inl e \<Rightarrow> Inl e
                                     | Inr s5 \<Rightarrow> Inr (free tagValue s5))
                               else Inr (free tagValue (map_insert tag tagValue s4)))
                     else Inr s3))))"
  by pat_completeness auto
termination
  by (relation "measure (\<lambda>(ber_data, s). length ber_data)")
     (auto simp: read_tag_def vec_at_def split: sum.splits if_splits)

declare parseTags.simps [simp del]

text \<open>
  The addresses from \<open>fresh\<close> on have not been handed out yet: the condition under which
  the store is a faithful picture of the heap.
\<close>

definition unallocated_from :: "pstate \<Rightarrow> bool" where
  "unallocated_from s \<longleftrightarrow> (\<forall>a\<ge>fresh s. store s a = None)"

subsection \<open>The APDU exchange (lines 284--314)\<close>

text \<open>
  The transport is not part of the sources: \<^verbatim>\<open>write_command_\<close> (here
  \<open>write_command\<close>), \<^verbatim>\<open>read_response\<close> and the opcode
  \<^verbatim>\<open>PN532_COMMAND_INDATAEXCHANGE\<close> are parameters, over a transport state \<open>'st\<close>.
  \<open>read_response\<close> receives the response vector by reference and reports success
  together with what the vector then holds.
\<close>

record 'st transport =
  PN532_COMMAND_INDATAEXCHANGE :: u8
  write_command :: "u8 list \<Rightarrow> 'st \<Rightarrow> bool \<times> 'st"
  read_response :: "u8 \<Rightarrow> u8 list \<Rightarrow> 'st \<Rightarrow> (bool \<times> u8 list) \<times> 'st"

text \<open>
  \<^verbatim>\<open>sendAPDU\<close> returns its boolean, the response vector as the caller finds it, and the
  transport state. \<^verbatim>\<open>response.size() - 2\<close> wraps around for a vector of one element,
  and the range of line 312 needs three elements: both are \<open>OutOfRange\<close>.
\<close>

definition sendAPDU ::
  "'st transport \<Rightarrow> u8 list \<Rightarrow> u8 list \<Rightarrow> 'st \<Rightarrow> error + (bool \<times> u8 list \<times> 'st)" where
  "sendAPDU tr apdu response st =
     (case write_command tr ([PN532_COMMAND_INDATAEXCHANGE tr, 0x01] @ apdu) st of
        (written, st1) \<Rightarrow>
          if \<not> written then Inr (False, response, st1)
          else
            (case read_response tr (PN532_COMMAND_INDATAEXCHANGE tr) response st1 of
               ((ok, resp), st2) \<Rightarrow>
                 if \<not> ok then Inr (False, resp, st2)
                 else
                   (case vec_at resp 0 of
                      Inl e \<Rightarrow> Inl e
                    | Inr first \<Rightarrow>
                        if first \<noteq> 0x00 then Inr (False, resp, st2)
                        else
                          (case vec_at resp (length resp - 1) of
                             Inl e \<Rightarrow> Inl e
                           | Inr sw2 \<Rightarrow>
                               if sw2 \<noteq> 0x00 then Inr (False, resp, st2)
                               else if length resp < 2 then Inl OutOfRange
                               else
                                 (case vec_at resp (length resp - 2) of
                                    Inl e \<Rightarrow> Inl e
                                  | Inr sw1 \<Rightarrow>
                                      if sw1 \<noteq> 0x90 then Inr (False, resp, st2)
                                      else if length resp < 3 then Inl OutOfRange
                                      else Inr (True, take (length resp - 3) (drop 1 resp),
                                                st2))))))"

subsection \<open>The read of an EMV card (lines 104--279)\<close>

text \<open>
  The tag constants of namespace \<^verbatim>\<open>nfc\<close> are declared outside the sources and are
  parameters.
\<close>

record emv_tags =
  EMV_TAG_AID :: u16
  EMV_TAG_PDOL :: u16
  EMV_TAG_TRACK2 :: u16
  EMV_TAG_TRACK1 :: u16
  EMV_TAG_PAN :: u16
  EMV_TAG_COMMAND :: u16

text \<open>The three attempts of lines 143--152 and of lines 192--201.\<close>

definition sendAPDU_3 ::
  "'st transport \<Rightarrow> u8 list \<Rightarrow> u8 list \<Rightarrow> 'st \<Rightarrow> error + (bool \<times> u8 list \<times> 'st)" where
  "sendAPDU_3 tr apdu response st =
     (case sendAPDU tr apdu response st of
        Inl e \<Rightarrow> Inl e
      | Inr (ok1, response1, st1) \<Rightarrow>
          if ok1 then Inr (True, response1, st1)
          else
            (case sendAPDU tr apdu response1 st1 of
               Inl e \<Rightarrow> Inl e
             | Inr (ok2, response2, st2) \<Rightarrow>
                 if ok2 then Inr (True, response2, st2)
                 else sendAPDU tr apdu response2 st2))"

text \<open>
  Lines 236--255, after a record was read: \<open>True\<close> when one of the three fields is there,
  in which case it is parsed and \<^verbatim>\<open>read_mifare_plus_bytes_\<close> returns \<^verbatim>\<open>false\<close>.
  The parsed digits are assigned to the local \<open>pan\<close> and not used.
\<close>

definition record_has_pan :: "emv_tags \<Rightarrow> u8 list \<Rightarrow> (error + bool) option" where
  "record_has_pan k response =
     (case findTag response (EMV_TAG_TRACK2 k) of
        Inl e \<Rightarrow> Some (Inl e)
      | Inr pan \<Rightarrow>
          if length pan > 0
          then (case parse_track2 pan of None \<Rightarrow> None | Some pan' \<Rightarrow> Some (Inr True))
          else
            (case findTag response (EMV_TAG_TRACK1 k) of
               Inl e \<Rightarrow> Some (Inl e)
             | Inr pan \<Rightarrow>
                 if length pan > 0
                 then (case parse_track1 pan of None \<Rightarrow> None | Some pan' \<Rightarrow> Some (Inr True))
                 else
                   (case findTag response (EMV_TAG_PAN k) of
                      Inl e \<Rightarrow> Some (Inl e)
                    | Inr pan \<Rightarrow>
                        if length pan > 0
                        then (case parse_pan pan of
                                None \<Rightarrow> None
                              | Some pan' \<Rightarrow> Some (Inr True))
                        else Some (Inr False))))"

text \<open>
  The loop of lines 229--260 over the records of one file, \<open>start\<close> and \<open>end_rec\<close> (the
  \<^verbatim>\<open>end\<close> of the source) being \<^verbatim>\<open>uint8_t\<close>. The boolean of the result says whether
  the function returned from inside the loop (line 240, 246 or 252).
\<close>

partial_function (option) read_records ::
  "emv_tags \<Rightarrow> 'st transport \<Rightarrow> u8 \<Rightarrow> u8 \<Rightarrow> u8 \<Rightarrow> u8 list \<Rightarrow> 'st \<Rightarrow>
     (error + (bool \<times> u8 list \<times> 'st)) option" where
  "read_records k tr sfi start end_rec response st =
     (if start \<le> end_rec then
        (case sendAPDU tr [0x00, 0xb2, start, sfi, 0x00] response st of
           Inl e \<Rightarrow> Some (Inl e)
         | Inr (ok, response1, st1) \<Rightarrow>
             if ok then
               (case record_has_pan k response1 of
                  None \<Rightarrow> None
                | Some (Inl e) \<Rightarrow> Some (Inl e)
                | Some (Inr found) \<Rightarrow>
                    if found then Some (Inr (True, response1, st1))
                    else read_records k tr sfi (start + 1) end_rec response1 st1)
             else read_records k tr sfi (start + 1) end_rec response1 st1)
      else Some (Inr (False, response, st)))"

declare read_records.simps [code]

text \<open>
  The loop of lines 222--261 over the AFL. It is entered with \<open>length afl \<ge> 4\<close>
  (line 215), so \<open>length afl - 4\<close> is the \<^verbatim>\<open>afl.size() - 4\<close> of the source.
\<close>

partial_function (option) afl_loop ::
  "emv_tags \<Rightarrow> 'st transport \<Rightarrow> u8 list \<Rightarrow> u8 \<Rightarrow> u8 list \<Rightarrow> 'st \<Rightarrow>
     (error + (bool \<times> u8 list \<times> 'st)) option" where
  "afl_loop k tr afl pos response st =
     (if unat pos < length afl - 4 then
        (case vec_at afl (unat pos) of
           Inl e \<Rightarrow> Some (Inl e)
         | Inr b \<Rightarrow>
             (case vec_at afl (unat (pos + 1)) of
                Inl e \<Rightarrow> Some (Inl e)
              | Inr start \<Rightarrow>
                  (case vec_at afl (unat (pos + 2)) of
                     Inl e \<Rightarrow> Some (Inl e)
                   | Inr end_rec \<Rightarrow>
                       (case vec_at afl (unat (pos + 3)) of
                          Inl e \<Rightarrow> Some (Inl e)
                        | Inr auth_rec \<Rightarrow>
                            (case read_records k tr ((b AND 0xF8) OR 0x04) start end_rec
                                    response st of
                               None \<Rightarrow> None
                             | Some (Inl e) \<Rightarrow> Some (Inl e)
                             | Some (Inr (returned, response1, st1)) \<Rightarrow>
                                 if returned then Some (Inr (True, response1, st1))
                                 else afl_loop k tr afl (pos + 4) response1 st1)))))
      else Some (Inr (False, response, st)))"

declare afl_loop.simps [code]

text \<open>
  \<^verbatim>\<open>read_mifare_plus_bytes_\<close> (its parameters \<open>start_page\<close> and \<open>num_bytes\<close> are not
  used). The result is the returned boolean, the caller's vector \<open>data\<close> and the transport
  state.
\<close>

definition select_ppse :: "u8 list" where
  "select_ppse =
     [0x00, 0xa4, 0x04, 0x00, 0x0e,
      0x32, 0x50, 0x41, 0x59, 0x2e, 0x53, 0x59, 0x53, 0x2e, 0x44, 0x44, 0x46, 0x30, 0x31,
      0x00]"

definition read_mifare_plus_bytes ::
  "emv_tags \<Rightarrow> 'st transport \<Rightarrow> u8 list \<Rightarrow> 'st \<Rightarrow> (error + (bool \<times> u8 list \<times> 'st)) option" where
  "read_mifare_plus_bytes k tr data st =
     (case sendAPDU tr select_ppse [] st of
        Inl e \<Rightarrow> Some (Inl e)
      | Inr (ok1, response1, st1) \<Rightarrow>
     if \<not> ok1 then Some (Inr (False, data, st1)) else
     (case findTag response1 (EMV_TAG_AID k) of
        Inl e \<Rightarrow> Some (Inl e)
      | Inr adf_name \<Rightarrow>
     if adf_name = [] then Some (Inr (False, data, st1)) else
     (case sendAPDU_3 tr
             ([0x00, 0xa4, 0x04, 0x00] @ [of_nat (length adf_name)] @ adf_name @ [0x00])
             response1 st1 of
        Inl e \<Rightarrow> Some (Inl e)
      | Inr (ok2, response2, st2) \<Rightarrow>
     if \<not> ok2 then Some (Inr (False, data, st2)) else
     (case findTag response2 (EMV_TAG_PDOL k) of
        Inl e \<Rightarrow> Some (Inl e)
      | Inr pdol \<Rightarrow>
     (case constructPdolData pdol of
        Inl e \<Rightarrow> Some (Inl e)
      | Inr (pdol_data, pdol') \<Rightarrow>
     (case sendAPDU_3 tr
             ([0x80, 0xa8, 0x00, 0x00] @
              [of_nat (length pdol_data + 2), ucast (EMV_TAG_COMMAND k),
               of_nat (length pdol_data)] @ pdol_data @ [0x00])
             response2 st2 of
        Inl e \<Rightarrow> Some (Inl e)
      | Inr (ok3, response3, st3) \<Rightarrow>
     if \<not> ok3 then Some (Inr (False, data, st3)) else
     (case findTag response3 (EMV_TAG_TRACK2 k) of
        Inl e \<Rightarrow> Some (Inl e)
      | Inr track2 \<Rightarrow>
     if length track2 > 0
     then (case parse_track2 track2 of
             None \<Rightarrow> None
           | Some pan \<Rightarrow> Some (Inr (False, data, st3)))
     else
     (case findTag response3 0x94 of
        Inl e \<Rightarrow> Some (Inl e)
      | Inr afl \<Rightarrow>
     if length afl < 4 \<or> length afl mod 4 \<noteq> 0 then Some (Inr (False, data, st3)) else
     (case afl_loop k tr afl 0 response3 st3 of
        None \<Rightarrow> None
      | Some (Inl e) \<Rightarrow> Some (Inl e)
      | Some (Inr (returned, response4, st4)) \<Rightarrow> Some (Inr (False, data, st4)))))))))))"

subsection \<open>A scripted transport\<close>

text \<open>
  The transport of the end-to-end test of section 8 of the specification: every command
  is written to a log, and answered by the next reply of a script; reading fails when the
  script is exhausted. The tag constants are those of EMV.
\<close>

record script =
  replies :: "u8 list list"
  sent :: "u8 list list"

definition scripted :: "script transport" where
  "scripted =
     \<lparr>PN532_COMMAND_INDATAEXCHANGE = 0x40,
      write_command = (\<lambda>command s. (True, s\<lparr>sent := sent s @ [command]\<rparr>)),
      read_response = (\<lambda>command response s.
         case replies s of
           [] \<Rightarrow> ((False, response), s)
         | r # rs \<Rightarrow> ((True, r), s\<lparr>replies := rs\<rparr>))\<rparr>"

definition emv :: emv_tags where
  "emv = \<lparr>EMV_TAG_AID = 0x4F, EMV_TAG_PDOL = 0x9F38, EMV_TAG_TRACK2 = 0x57,
          EMV_TAG_TRACK1 = 0x56, EMV_TAG_PAN = 0x5A, EMV_TAG_COMMAND = 0x83\<rparr>"

definition ppse_reply :: "u8 list" where
  "ppse_reply =
     [0x00, 0x6F, 0x0B, 0xA5, 0x09, 0x4F, 0x07, 0xA0, 0x00, 0x00, 0x00, 0x03, 0x10, 0x10,
      0x90, 0x00]"

definition aid_reply :: "u8 list" where
  "aid_reply = [0x00, 0x6F, 0x08, 0xA5, 0x06, 0x9F, 0x38, 0x03, 0x9F, 0x1A, 0x02, 0x90, 0x00]"

definition gpo_track2_reply :: "u8 list" where
  "gpo_track2_reply =
     [0x00, 0x77, 0x0B, 0x57, 0x09, 0x44, 0x00, 0x66, 0x49, 0x87, 0x36, 0x60, 0x29, 0xD2,
      0x90, 0x00]"

definition gpo_afl_reply :: "u8 list" where
  "gpo_afl_reply = [0x00, 0x77, 0x06, 0x94, 0x04, 0x08, 0x01, 0x01, 0x00, 0x90, 0x00]"

definition gpo_afl2_reply :: "u8 list" where
  "gpo_afl2_reply =
     [0x00, 0x77, 0x0A, 0x94, 0x08, 0x08, 0x01, 0x01, 0x00, 0x10, 0x01, 0x01, 0x00,
      0x90, 0x00]"

definition empty_reply :: "u8 list" where
  "empty_reply = [0x00, 0x90, 0x00]"

definition record_reply :: "u8 list" where
  "record_reply =
     [0x00, 0x70, 0x0B, 0x57, 0x09, 0x44, 0x00, 0x66, 0x49, 0x87, 0x36, 0x60, 0x29, 0xD2,
      0x90, 0x00]"


section \<open>Properties\<close>

subsection \<open>Track data parsers\<close>

lemma spec_digits_Cons:
  "spec_digits (b # bs) t =
     (if drop_bit 4 b = t then []
      else if b AND 0x0F = t then [drop_bit 4 b]
      else drop_bit 4 b # (b AND 0x0F) # spec_digits bs t)"
  by (simp add: spec_digits_def spec_nibbles_def)

lemma spec_digits_Nil: "spec_digits [] t = []"
  by (simp add: spec_digits_def spec_nibbles_def)

lemma parse_nibbles_loop_eq:
  "unat pos \<le> length data \<Longrightarrow>
   unat pos + length (spec_digits (drop (unat pos) data) t) div 2 < 256 \<Longrightarrow>
   parse_nibbles_loop data t pos result =
     Some (of_nat (unat pos + length (spec_digits (drop (unat pos) data) t) div 2),
           result @ spec_digits (drop (unat pos) data) t)"
proof (induction "length data - unat pos" arbitrary: pos result)
  case 0
  then have "drop (unat pos) data = []" by simp
  moreover have "\<not> unat pos < length data" using 0 by simp
  ultimately show ?case
    by (subst parse_nibbles_loop.simps) (simp add: spec_digits_Nil)
next
  case (Suc k)
  then have lt: "unat pos < length data" by simp
  define b where "b = data ! unat pos"
  have dr: "drop (unat pos) data = b # drop (Suc (unat pos)) data"
    unfolding b_def using lt by (simp add: Cons_nth_drop_Suc)
  show ?case
  proof (cases "drop_bit 4 b = t \<or> b AND 0x0F = t")
    case True
    then show ?thesis
      using lt by (subst parse_nibbles_loop.simps) (auto simp: dr spec_digits_Cons b_def Let_def)
  next
    case False
    have bound: "unat pos + 1 + length (spec_digits (drop (Suc (unat pos)) data) t) div 2 < 256"
      using Suc.prems(2) False by (simp add: dr spec_digits_Cons)
    then have "unat pos + 1 < 256" by simp
    then have up: "unat (pos + 1) = Suc (unat pos)"
      by (simp add: unat_word_ariths)
    have IH: "parse_nibbles_loop data t (pos + 1) (result @ [drop_bit 4 b, b AND 0x0F]) =
        Some (of_nat (unat (pos + 1) + length (spec_digits (drop (unat (pos + 1)) data) t) div 2),
              (result @ [drop_bit 4 b, b AND 0x0F]) @ spec_digits (drop (unat (pos + 1)) data) t)"
      apply (rule Suc.hyps(1))
      using Suc.hyps(2) lt bound by (simp_all add: up)
    show ?thesis
      using lt False
      by (subst parse_nibbles_loop.simps) (simp add: IH up dr spec_digits_Cons b_def [symmetric] Let_def)
  qed
qed

text \<open>
  C3, as amended. Whenever fewer than 256 bytes are consumed (so for every buffer of at
  most 255 bytes), \<open>parse_nibbles\<close> returns: its loop stops at the byte position that is
  half the number of nibbles before the first terminator nibble, having collected exactly
  these nibbles, high before low, without the terminator; the result is this sequence when
  the position lies in 3..10 and the empty sequence otherwise. A buffer without any
  terminator nibble is not rejected for that: the position is then its length.
\<close>

theorem parse_nibbles_refines:
  assumes "length (spec_digits data t) div 2 < 256"
  shows "parse_nibbles_loop data t 0 [] =
           Some (of_nat (length (spec_digits data t) div 2), spec_digits data t) \<and>
         parse_nibbles data t =
           Some (if length (spec_digits data t) div 2 < 3 \<or>
                    10 < length (spec_digits data t) div 2
                 then [] else spec_digits data t)"
proof -
  define c where "c = length (spec_digits data t) div 2"
  have c: "c < 256" using assms by (simp add: c_def)
  have loop: "parse_nibbles_loop data t 0 [] = Some (of_nat c, spec_digits data t)"
    using parse_nibbles_loop_eq [of 0 data t "[]"] assms by (simp add: c_def)
  moreover have "(of_nat c :: u8) > 10 \<longleftrightarrow> 10 < c"
    using c by (simp add: word_less_nat_alt unat_of_nat)
  moreover have "(of_nat c :: u8) < 3 \<longleftrightarrow> c < 3"
    using c by (simp add: word_less_nat_alt unat_of_nat)
  ultimately show ?thesis
    by (auto simp: parse_nibbles_def c_def)
qed

text \<open>
  The track 2 example of the specification: 16 digits, the loop stopping at byte
  offset 8.
\<close>

theorem parse_nibbles_refines_witness:
  "length (spec_digits [0x44, 0x00, 0x66, 0x49, 0x87, 0x36, 0x60, 0x29, 0xD2] 0x0D) div 2 < 256 \<and>
   parse_nibbles_loop [0x44, 0x00, 0x66, 0x49, 0x87, 0x36, 0x60, 0x29, 0xD2] 0x0D 0 [] =
     Some (8, [4, 4, 0, 0, 6, 6, 4, 9, 8, 7, 3, 6, 6, 0, 2, 9]) \<and>
   parse_track2 [0x44, 0x00, 0x66, 0x49, 0x87, 0x36, 0x60, 0x29, 0xD2] =
     Some [4, 4, 0, 0, 6, 6, 4, 9, 8, 7, 3, 6, 6, 0, 2, 9]"
  using parse_nibbles_refines [of "[0x44, 0x00, 0x66, 0x49, 0x87, 0x36, 0x60, 0x29, 0xD2]" "0x0D"]
  by (simp add: spec_digits_def spec_nibbles_def parse_track2_def)

text \<open>
  C3 as stated fails: three bytes without the terminator nibble \<open>0xD\<close> are not rejected.
\<close>

theorem parse_nibbles_no_terminator_counterexample:
  "\<not> (0x0D \<notin> set (spec_nibbles [0x12, 0x34, 0x56]) \<longrightarrow>
      parse_nibbles [0x12, 0x34, 0x56] 0x0D = Some [])"
  by (simp add: spec_nibbles_def parse_nibbles_def parse_nibbles_loop.simps)

lemma takeWhile_upto:
  assumes "\<forall>j\<le>i. P (xs ! j)" "i < length xs"
  shows "i < length (takeWhile P xs) \<and> takeWhile P xs ! i = xs ! i"
proof -
  have "Suc i \<le> length (takeWhile P xs)"
    using assms by (intro length_takeWhile_less_P_nth) auto
  then have "i < length (takeWhile P xs)" by simp
  then show ?thesis by (simp add: takeWhile_nth)
qed

lemma takeWhile_stop:
  assumes "\<forall>j<i. P (xs ! j)" "i < length xs" "\<not> P (xs ! i)"
  shows "takeWhile P xs = take i xs"
  using assms by (intro takeWhile_eq_take_P_nth) auto

lemma takeWhile_all:
  assumes "\<forall>j<length xs. P (xs ! j)"
  shows "takeWhile P xs = xs"
  using assms by (simp add: takeWhile_eq_all_conv all_set_conv_all_nth)

lemma parse_track1_loop_eq:
  assumes ne: "data \<noteq> []" and b: "data ! 0 = 0x42"
  shows "1 \<le> unat pos \<Longrightarrow> unat pos \<le> length data \<Longrightarrow>
     (\<forall>j<unat pos - 1. tl data ! j \<noteq> 0x5E \<and> 0x30 \<le> tl data ! j \<and> tl data ! j \<le> 0x39) \<Longrightarrow>
     result = map (\<lambda>b. b - 0x30) (take (unat pos - 1) (tl data)) \<Longrightarrow>
     parse_track1_loop data pos result = Some (spec_parse_track1 19 data)"
proof (induction "256 - unat pos" arbitrary: pos result)
  case 0
  have "unat pos < 256" using unsigned_less [of pos] by simp
  with 0 show ?case by simp
next
  case (Suc k)
  define i where "i = unat pos - 1"
  define body where "body = tl data"
  have hd: "hd data = 0x42" using ne b by (simp add: hd_conv_nth)
  have lenb: "length body = length data - 1" by (simp add: body_def)
  have pos_i: "unat pos = Suc i" using Suc.prems(1) by (simp add: i_def)
  have inv: "\<forall>j<i. body ! j \<noteq> 0x5E \<and> 0x30 \<le> body ! j \<and> body ! j \<le> 0x39"
    using Suc.prems(3) by (simp add: i_def body_def)
  have res: "result = map (\<lambda>b. b - 0x30) (take i body)"
    using Suc.prems(4) by (simp add: i_def body_def)
  show ?case
  proof (cases "unat pos < length data")
    case False
    then have "i = length body" using Suc.prems(2) pos_i lenb by simp
    with inv have "takeWhile (\<lambda>b. b \<noteq> 0x5E) body = body"
      by (intro takeWhile_all) simp
    then have "length (spec_track1_digits data) = length (tl data)"
      unfolding spec_track1_digits_def body_def by (rule arg_cong)
    then have "spec_parse_track1 19 data = []"
      by (simp add: spec_parse_track1_def spec_track1_rejected_def)
    with False show ?thesis
      by (subst parse_track1_loop.simps) (simp add: parse_track1_check_def)
  next
    case True
    then have ilt: "i < length body" using pos_i lenb by simp
    have d: "data ! unat pos = body ! i"
      using ilt pos_i by (simp add: body_def nth_tl)
    consider (caret) "body ! i = 0x5E"
      | (bad) "body ! i \<noteq> 0x5E" "body ! i < 0x30 \<or> 0x39 < body ! i"
      | (digit) "body ! i \<noteq> 0x5E" "0x30 \<le> body ! i" "body ! i \<le> 0x39"
      by fastforce
    then show ?thesis
    proof cases
      case caret
      have ds: "takeWhile (\<lambda>b. b \<noteq> 0x5E) body = take i body"
        using inv ilt caret by (intro takeWhile_stop) auto
      have nodig: "\<not> list_ex (\<lambda>b. b < 0x30 \<or> 0x39 < b) (take i body)"
        using inv ilt by (auto simp: list_ex_iff in_set_conv_nth not_less)
      have gt: "pos > 20 \<longleftrightarrow> 19 < i"
        using pos_i by (simp add: word_less_nat_alt)
      have "spec_parse_track1 19 data = (if 19 < i then [] else result)"
        using ne hd ilt nodig
        by (simp add: spec_parse_track1_def spec_track1_rejected_def spec_track1_digits_def
            body_def [symmetric] ds res min_def)
      with True caret show ?thesis
        by (subst parse_track1_loop.simps) (simp add: d parse_track1_check_def gt)
    next
      case bad
      have "\<forall>j\<le>i. body ! j \<noteq> 0x5E" using inv bad(1) by (auto simp: le_less)
      then have "i < length (takeWhile (\<lambda>b. b \<noteq> 0x5E) body) \<and>
                 takeWhile (\<lambda>b. b \<noteq> 0x5E) body ! i = body ! i"
        using ilt by (intro takeWhile_upto) auto
      then have "body ! i \<in> set (takeWhile (\<lambda>b. b \<noteq> 0x5E) body)"
        by (metis nth_mem)
      then have "list_ex (\<lambda>b. b < 0x30 \<or> 0x39 < b) (takeWhile (\<lambda>b. b \<noteq> 0x5E) body)"
        using bad(2) by (auto simp: list_ex_iff)
      then have "spec_parse_track1 19 data = []"
        by (simp add: spec_parse_track1_def spec_track1_rejected_def spec_track1_digits_def body_def)
      with True bad show ?thesis
        by (subst parse_track1_loop.simps) (auto simp: d Let_def)
    next
      case digit
      have inv': "\<forall>j\<le>i. body ! j \<noteq> 0x5E \<and> 0x30 \<le> body ! j \<and> body ! j \<le> 0x39"
        using inv digit by (auto simp: le_less)
      have step: "parse_track1_loop data pos result =
                  parse_track1_loop data (pos + 1) (result @ [body ! i - 0x30])"
        using True digit
        by (subst parse_track1_loop.simps) (auto simp: d Let_def not_less)
      have res': "result @ [body ! i - 0x30] = map (\<lambda>b. b - 0x30) (take (Suc i) body)"
        using ilt by (simp add: res take_Suc_conv_app_nth)
      show ?thesis
      proof (cases "unat pos = 255")
        case True
        then have "pos = 255" by (simp add: word_unat_eq_iff)
        then have "pos + 1 = 0" by simp
        moreover have "parse_track1_loop data 0 (result @ [body ! i - 0x30]) = Some []"
          using ne b by (subst parse_track1_loop.simps) simp
        moreover have "spec_parse_track1 19 data = []"
        proof -
          have "i < length (takeWhile (\<lambda>b. b \<noteq> 0x5E) body)"
            using takeWhile_upto [of i "\<lambda>b. b \<noteq> 0x5E" body] inv' ilt by simp
          then have "19 < length (spec_track1_digits data)"
            using True pos_i by (simp add: spec_track1_digits_def body_def)
          then show ?thesis
            by (simp add: spec_parse_track1_def spec_track1_rejected_def)
        qed
        ultimately show ?thesis using step by simp
      next
        case False
        have "unat pos < 256" using unsigned_less [of pos] by simp
        with False have up: "unat (pos + 1) = Suc (unat pos)"
          by (simp add: unat_word_ariths)
        have "parse_track1_loop data (pos + 1) (result @ [body ! i - 0x30]) =
              Some (spec_parse_track1 19 data)"
        proof (rule Suc.hyps(1))
          show "k = 256 - unat (pos + 1)" using Suc.hyps(2) up by simp
          show "1 \<le> unat (pos + 1)" using up by simp
          show "unat (pos + 1) \<le> length data" using up \<open>unat pos < length data\<close> by simp
          show "\<forall>j<unat (pos + 1) - 1. tl data ! j \<noteq> 0x5E \<and> 0x30 \<le> tl data ! j \<and> tl data ! j \<le> 0x39"
            using inv' up pos_i by (simp add: body_def less_Suc_eq_le)
          show "result @ [body ! i - 0x30] = map (\<lambda>b. b - 0x30) (take (unat (pos + 1) - 1) (tl data))"
            using res' up pos_i by (simp add: body_def)
        qed
        with step show ?thesis by simp
      qed
    qed
  qed
qed

text \<open>
  C6, as amended. \<open>parse_track1\<close> always returns, and returns the digit values of the
  bytes between the leading B and the first caret, unless it rejects; it rejects (returns
  empty) when the buffer is empty, the first byte is not B, a byte before the caret is not
  a digit, no caret is found, or more than 19 (not 20) digit bytes precede the caret. So
  the result is empty exactly when the input is rejected or no byte lies between the B and
  the caret.
\<close>

theorem parse_track1_refines:
  "parse_track1 data = Some (spec_parse_track1 19 data) \<and>
   (spec_parse_track1 19 data = [] \<longleftrightarrow>
      spec_track1_rejected 19 data \<or> spec_track1_digits data = [])"
proof -
  have "parse_track1 data = Some (spec_parse_track1 19 data)"
  proof (cases "data = [] \<or> data ! 0 \<noteq> 0x42")
    case True
    then have "spec_track1_rejected 19 data"
      by (auto simp: spec_track1_rejected_def hd_conv_nth)
    with True show ?thesis
      by (auto simp: parse_track1_def spec_parse_track1_def)
  next
    case False
    then have "parse_track1_loop data 1 [] = Some (spec_parse_track1 19 data)"
      by (intro parse_track1_loop_eq) (auto simp: Suc_le_eq)
    with False show ?thesis by (simp add: parse_track1_def)
  qed
  then show ?thesis by (simp add: spec_parse_track1_def)
qed

text \<open>The track 1 example of the specification, B4400664987366029 and a caret.\<close>

theorem parse_track1_refines_witness:
  "parse_track1 [0x42, 0x34, 0x34, 0x30, 0x30, 0x36, 0x36, 0x34, 0x39, 0x38, 0x37, 0x33,
                 0x36, 0x36, 0x30, 0x32, 0x39, 0x5E] =
     Some [4, 4, 0, 0, 6, 6, 4, 9, 8, 7, 3, 6, 6, 0, 2, 9]"
  using parse_track1_refines [of "[0x42, 0x34, 0x34, 0x30, 0x30, 0x36, 0x36, 0x34, 0x39, 0x38,
                 0x37, 0x33, 0x36, 0x36, 0x30, 0x32, 0x39, 0x5E]"]
  by (simp add: spec_parse_track1_def spec_track1_rejected_def spec_track1_digits_def)

text \<open>
  C6 as stated fails: with exactly 20 digit bytes before the caret, none of the stated
  reasons to reject holds (the limit being 20), yet the result is empty.
\<close>

theorem parse_track1_twenty_digits_counterexample:
  "\<not> spec_track1_rejected 20
       [0x42, 0x31, 0x31, 0x31, 0x31, 0x31, 0x31, 0x31, 0x31, 0x31, 0x31,
        0x31, 0x31, 0x31, 0x31, 0x31, 0x31, 0x31, 0x31, 0x31, 0x31, 0x5E] \<and>
   parse_track1
       [0x42, 0x31, 0x31, 0x31, 0x31, 0x31, 0x31, 0x31, 0x31, 0x31, 0x31,
        0x31, 0x31, 0x31, 0x31, 0x31, 0x31, 0x31, 0x31, 0x31, 0x31, 0x5E] = Some []"
  by (simp add: spec_track1_rejected_def spec_track1_digits_def parse_track1_def
      parse_track1_loop.simps parse_track1_check_def)

subsection \<open>BER-TLV search\<close>

lemma m5: "(0x1F :: 'a::len word) = mask 5"
  by (simp add: mask_eq_exp_minus_1)

lemma and_mask_full:
  "(w::'a::len word) AND mask k = mask k \<longleftrightarrow> (\<forall>i<k. i < LENGTH('a) \<longrightarrow> bit w i)"
  by (auto simp: bit_eq_iff bit_simps)

lemma ucast_mask5: "(ucast (b::u8) :: u16) AND 0x1F = 0x1F \<longleftrightarrow> b AND 0x1F = 0x1F"
  unfolding m5 and_mask_full by (auto simp: bit_simps)

lemma tag_add_or: "(push_bit 8 (ucast (b0::u8)) :: u16) + ucast (b1::u8) = push_bit 8 (ucast b0) OR ucast b1"
  by (rule disjunctive_add) (auto simp: bit_simps dest: bit_imp_le_length)

lemma find_append:
  "find P (xs @ ys) = (case find P xs of None \<Rightarrow> find P ys | Some x \<Rightarrow> Some x)"
  by (induction xs) auto

lemma findTag_header_pos:
  "findTag_header buf = Inr (tag, len, h) \<Longrightarrow> 0 < h"
  by (auto simp: findTag_header_def read_tag_def split: sum.splits if_splits)

lemma findTag_header_spec:
  assumes "\<not> length buf < 3" "findTag_header buf = Inr (tag, len, h)"
  shows "spec_decode_node buf =
           (if h + len \<le> length buf
            then Some (tag, take len (drop h buf), drop (h + len) buf) else None)"
  using assms
  by (auto simp: findTag_header_def read_tag_def vec_at_def spec_decode_node_def Let_def
        ucast_mask5 tag_add_or split: sum.splits if_splits)

lemma first_match_of_findTag:
  "findTag buf t = Inr r \<Longrightarrow>
   (case find (\<lambda>n. fst n = t) (spec_nodes buf) of
      None \<Rightarrow> r = []
    | Some n \<Rightarrow> snd n \<noteq> [] \<longrightarrow> r = snd n)"
proof (induction "length buf" arbitrary: buf r rule: less_induct)
  case less
  show ?case
  proof (cases "length buf < 3")
    case True
    then have "spec_nodes buf = []"
      by (subst spec_nodes.simps) (simp add: spec_decode_node_def)
    moreover have "r = []"
      using less.prems True by (subst (asm) findTag.simps) simp
    ultimately show ?thesis by simp
  next
    case False
    obtain tag len h where hdr: "findTag_header buf = Inr (tag, len, h)"
      using less.prems False
      by (subst (asm) findTag.simps) (auto split: sum.splits)
    have hpos: "0 < h" using hdr by (rule findTag_header_pos)
    define val where "val = take len (drop h buf)"
    define rest where "rest = drop (h + len) buf"
    show ?thesis
    proof (cases "len + h \<le> length buf")
      case nofit: False
      then have "spec_nodes buf = []"
        using findTag_header_spec [OF False hdr]
        by (subst spec_nodes.simps) (simp add: add.commute)
      moreover have "r = []"
        using less.prems False hdr nofit by (subst (asm) findTag.simps) simp
      ultimately show ?thesis by simp
    next
      case fit: True
      have nodes: "spec_nodes buf =
          (tag, val) # (if is_template tag then spec_nodes val else []) @ spec_nodes rest"
        using findTag_header_spec [OF False hdr] fit
        by (subst spec_nodes.simps) (simp add: add.commute val_def rest_def)
      show ?thesis
      proof (cases "tag = t")
        case True
        then have "r = val"
          using less.prems False hdr fit
          by (subst (asm) findTag.simps) (simp add: val_def)
        with True show ?thesis by (simp add: nodes)
      next
        case neq: False
        define inner where
          "inner = (if is_template tag then findTag val t else Inr [])"
        have unf: "findTag buf t =
            (case inner of Inl e \<Rightarrow> Inl e
             | Inr tv \<Rightarrow> if tv \<noteq> [] then Inr tv
                 else if len + h < length buf
                 then (case findTag rest t of Inl e \<Rightarrow> Inl e
                       | Inr tv' \<Rightarrow> if tv' \<noteq> [] then Inr tv' else Inr [])
                 else Inr [])"
          unfolding inner_def val_def rest_def using False hdr fit neq
          by (subst findTag.simps) (simp add: add.commute)
        obtain tv where tv: "inner = Inr tv"
          using less.prems unf by (cases inner) auto
        have lval: "length val < length buf"
          using fit hpos by (simp add: val_def)
        have IH1: "case find (\<lambda>n. fst n = t) (if is_template tag then spec_nodes val else []) of
                     None \<Rightarrow> tv = []
                   | Some n \<Rightarrow> snd n \<noteq> [] \<longrightarrow> tv = snd n"
        proof (cases "is_template tag")
          case True
          then have "findTag val t = Inr tv" using tv by (simp add: inner_def)
          with less.hyps [OF lval] True show ?thesis by simp
        next
          case False
          then show ?thesis using tv by (simp add: inner_def)
        qed
        show ?thesis
        proof (cases "find (\<lambda>n. fst n = t) (if is_template tag then spec_nodes val else [])")
          case (Some n)
          then have "find (\<lambda>n. fst n = t) (spec_nodes buf) = Some n"
            using neq by (simp add: nodes find_append)
          moreover have "snd n \<noteq> [] \<longrightarrow> r = snd n"
            using IH1 Some less.prems unf tv by auto
          ultimately show ?thesis by simp
        next
          case None
          then have tvnil: "tv = []" using IH1 by simp
          have fnd: "find (\<lambda>n. fst n = t) (spec_nodes buf) = find (\<lambda>n. fst n = t) (spec_nodes rest)"
            using neq None by (simp add: nodes find_append)
          show ?thesis
          proof (cases "len + h < length buf")
            case True
            have lrest: "length rest < length buf"
              using True hpos by (simp add: rest_def)
            have "findTag rest t = Inr r"
              using less.prems unf tv tvnil True by (auto split: sum.splits if_splits)
            from less.hyps [OF lrest this] show ?thesis by (simp add: fnd)
          next
            case False
            then have "rest = []" using fit by (simp add: rest_def)
            then have "spec_nodes rest = []"
              by (subst spec_nodes.simps) (simp add: spec_decode_node_def)
            moreover have "r = []"
              using less.prems unf tv tvnil False by simp
            ultimately show ?thesis by (simp add: fnd)
          qed
        qed
      qed
    qed
  qed
qed

lemma findTag_is_spec_search:
  "findTag buf t = Inr r \<Longrightarrow> r = spec_search buf t"
proof (induction "length buf" arbitrary: buf r rule: less_induct)
  case less
  show ?case
  proof (cases "length buf < 3")
    case True
    then have "spec_visited buf t = []"
      by (subst spec_visited.simps) (simp add: spec_decode_node_def)
    moreover have "r = []"
      using less.prems True by (subst (asm) findTag.simps) simp
    ultimately show ?thesis by (simp add: spec_search_def)
  next
    case False
    obtain tag len h where hdr: "findTag_header buf = Inr (tag, len, h)"
      using less.prems False
      by (subst (asm) findTag.simps) (auto split: sum.splits)
    have hpos: "0 < h" using hdr by (rule findTag_header_pos)
    define val where "val = take len (drop h buf)"
    define rest where "rest = drop (h + len) buf"
    show ?thesis
    proof (cases "len + h \<le> length buf")
      case nofit: False
      then have "spec_visited buf t = []"
        using findTag_header_spec [OF False hdr]
        by (subst spec_visited.simps) (simp add: add.commute)
      moreover have "r = []"
        using less.prems False hdr nofit by (subst (asm) findTag.simps) simp
      ultimately show ?thesis by (simp add: spec_search_def)
    next
      case fit: True
      have vis: "spec_visited buf t =
          (tag, val) #
          (if tag = t then []
           else (if is_template tag then spec_visited val t else []) @ spec_visited rest t)"
        using findTag_header_spec [OF False hdr] fit
        by (subst spec_visited.simps) (simp add: add.commute val_def rest_def)
      show ?thesis
      proof (cases "tag = t")
        case True
        then have "r = val"
          using less.prems False hdr fit
          by (subst (asm) findTag.simps) (simp add: val_def)
        with True show ?thesis by (simp add: vis spec_search_def)
      next
        case neq: False
        define inner where
          "inner = (if is_template tag then findTag val t else Inr [])"
        have unf: "findTag buf t =
            (case inner of Inl e \<Rightarrow> Inl e
             | Inr tv \<Rightarrow> if tv \<noteq> [] then Inr tv
                 else if len + h < length buf
                 then (case findTag rest t of Inl e \<Rightarrow> Inl e
                       | Inr tv' \<Rightarrow> if tv' \<noteq> [] then Inr tv' else Inr [])
                 else Inr [])"
          unfolding inner_def val_def rest_def using False hdr fit neq
          by (subst findTag.simps) (simp add: add.commute)
        obtain tv where tv: "inner = Inr tv"
          using less.prems unf by (cases inner) auto
        have lval: "length val < length buf"
          using fit hpos by (simp add: val_def)
        define inside where
          "inside = (if is_template tag then spec_visited val t else [])"
        have IH1: "tv = (case find (\<lambda>n. fst n = t \<and> snd n \<noteq> []) inside of
                           None \<Rightarrow> [] | Some n \<Rightarrow> snd n)"
        proof (cases "is_template tag")
          case True
          then have "findTag val t = Inr tv" using tv by (simp add: inner_def)
          from less.hyps [OF lval this] True show ?thesis
            by (simp add: inside_def spec_search_def)
        next
          case False
          then show ?thesis using tv by (simp add: inner_def inside_def)
        qed
        have srch: "spec_search buf t =
            (case find (\<lambda>n. fst n = t \<and> snd n \<noteq> []) inside of
               None \<Rightarrow> spec_search rest t
             | Some n \<Rightarrow> snd n)"
          using neq by (simp add: spec_search_def vis find_append inside_def split: option.splits)
        show ?thesis
        proof (cases "find (\<lambda>n. fst n = t \<and> snd n \<noteq> []) inside")
          case (Some n)
          then have "snd n \<noteq> []" by (auto simp: find_Some_iff)
          then have "tv \<noteq> []" using IH1 Some by simp
          then have "r = tv" using less.prems unf tv by simp
          then show ?thesis using IH1 Some srch by simp
        next
          case None
          then have tvnil: "tv = []" using IH1 by simp
          show ?thesis
          proof (cases "len + h < length buf")
            case True
            have lrest: "length rest < length buf"
              using True hpos by (simp add: rest_def)
            have "findTag rest t = Inr r"
              using less.prems unf tv tvnil True by (auto split: sum.splits if_splits)
            from less.hyps [OF lrest this] show ?thesis using srch None by simp
          next
            case False
            then have "rest = []" using fit by (simp add: rest_def)
            then have "spec_visited rest t = []"
              by (subst spec_visited.simps) (simp add: spec_decode_node_def)
            moreover have "r = []"
              using less.prems unf tv tvnil False by simp
            ultimately show ?thesis using srch None by (simp add: spec_search_def)
          qed
        qed
      qed
    qed
  qed
qed

text \<open>
  C4, as amended. Whenever \<open>findTag\<close> returns without reading outside the buffer, its
  result is that of the following search. The nodes are met depth-first (the first node,
  then the nodes of its value if its tag is one of the six constructed tags, then the
  nodes of the remaining sibling buffer), except that a node carrying the target tag is
  not searched inside and ends the search of its own sibling buffer; the result is the
  first non-empty value of a node carrying the target tag among the nodes met, and empty
  if there is none. Consequently a buffer of fewer than 3 bytes gives empty; if no node of
  the full depth-first traversal carries the target tag the result is empty; and if the
  first node of the full traversal that carries it has a non-empty value, the result is
  that value.
\<close>

theorem findTag_first_match:
  assumes "findTag buf t = Inr r"
  shows "r = spec_search buf t \<and>
         (length buf < 3 \<longrightarrow> r = []) \<and>
         (case find (\<lambda>n. fst n = t) (spec_nodes buf) of
            None \<Rightarrow> r = []
          | Some n \<Rightarrow> snd n \<noteq> [] \<longrightarrow> r = snd n)"
proof (intro conjI)
  show "r = spec_search buf t"
    using assms by (rule findTag_is_spec_search)
  show "length buf < 3 \<longrightarrow> r = []"
    using assms by (subst (asm) findTag.simps) auto
  show "case find (\<lambda>n. fst n = t) (spec_nodes buf) of
            None \<Rightarrow> r = []
          | Some n \<Rightarrow> snd n \<noteq> [] \<longrightarrow> r = snd n"
    using assms by (rule first_match_of_findTag)
qed

text \<open>
  The example of the specification: template \<open>0x6F\<close> holding tag \<open>0x84\<close> and template
  \<open>0xA5\<close>, which holds tag \<open>0x88\<close>. And two nodes with tag \<open>0x57\<close> side by side, the
  first with an empty value: it ends the search, the result is empty.
\<close>

theorem findTag_first_match_witness:
  "findTag [0x6F, 0x0A, 0x84, 0x02, 0xA0, 0x01, 0xA5, 0x04, 0x88, 0x02, 0x01, 0x02] 0x88
     = Inr [0x01, 0x02] \<and>
   spec_search [0x6F, 0x0A, 0x84, 0x02, 0xA0, 0x01, 0xA5, 0x04, 0x88, 0x02, 0x01, 0x02] 0x88
     = [0x01, 0x02] \<and>
   find (\<lambda>n. fst n = 0x88)
     (spec_nodes [0x6F, 0x0A, 0x84, 0x02, 0xA0, 0x01, 0xA5, 0x04, 0x88, 0x02, 0x01, 0x02])
     = Some (0x88, [0x01, 0x02]) \<and>
   findTag [0x57, 0x00, 0x57, 0x01, 0xAA] 0x57 = Inr [] \<and>
   spec_search [0x57, 0x00, 0x57, 0x01, 0xAA] 0x57 = [] \<and>
   spec_visited [0x57, 0x00, 0x57, 0x01, 0xAA] 0x57 = [(0x57, [])]"
proof -
  have r: "findTag [0x6F, 0x0A, 0x84, 0x02, 0xA0, 0x01, 0xA5, 0x04, 0x88, 0x02, 0x01, 0x02] 0x88
             = Inr [0x01, 0x02]"
    by (simp add: findTag.simps findTag_header_def read_tag_def vec_at_def is_template_def)
  have e: "findTag [0x57, 0x00, 0x57, 0x01, 0xAA] 0x57 = Inr []"
    by (simp add: findTag.simps findTag_header_def read_tag_def vec_at_def is_template_def)
  have v: "spec_visited [0x57, 0x00, 0x57, 0x01, 0xAA] 0x57 = [(0x57, [])]"
    by (simp add: spec_visited.simps spec_decode_node_def is_template_def Let_def)
  show ?thesis
    using findTag_first_match [OF r] findTag_first_match [OF e] r e v
    by (simp add: spec_nodes.simps spec_decode_node_def is_template_def Let_def)
qed

text \<open>
  C4 as stated fails: the first node with tag \<open>0x57\<close> in depth-first order lies inside
  the template and has an empty value, so the value of the first match is empty; \<open>findTag\<close>
  returns the value of the second one.
\<close>

theorem findTag_empty_value_counterexample:
  "spec_find_tag [0x6F, 0x03, 0x57, 0x00, 0x00, 0x57, 0x01, 0xAA] 0x57 = [] \<and>
   findTag [0x6F, 0x03, 0x57, 0x00, 0x00, 0x57, 0x01, 0xAA] 0x57 = Inr [0xAA]"
  by (simp add: spec_find_tag_def spec_nodes.simps spec_decode_node_def Let_def
      findTag.simps findTag_header_def read_tag_def vec_at_def is_template_def)

text \<open>
  C10. The claim does not hold of the code: on a 3-byte buffer whose first byte has its
  five low bits set (a two-byte tag) and whose third byte, the length byte, has its high
  bit set, \<open>findTag\<close> reads the byte at index 3, outside the buffer.
\<close>

theorem findTag_reads_out_of_range:
  "b0 AND 0x1F = 0x1F \<Longrightarrow> l AND 0x80 \<noteq> 0 \<Longrightarrow> findTag [b0, b1, l] t = Inl OutOfRange"
  by (simp add: findTag.simps findTag_header_def read_tag_def vec_at_def ucast_mask5)

theorem findTag_reads_out_of_range_witness:
  "(0x9F :: u8) AND 0x1F = 0x1F \<and> (0x81 :: u8) AND 0x80 \<noteq> 0 \<and>
   findTag [0x9F, 0x66, 0x81] 0x57 = Inl OutOfRange"
  using findTag_reads_out_of_range [of "0x9F" "0x81" "0x66" "0x57"] by simp

lemma findTag_long_form_short_tag:
  assumes "b0 AND 0x1F \<noteq> 0x1F" "l AND 0x80 \<noteq> 0" "length v = unat n"
  shows "findTag (b0 # l # n # v @ rest) (ucast b0) = Inr v"
proof -
  have "findTag_header (b0 # l # n # v @ rest) = Inr (ucast b0, unat n, 3)"
    using assms by (simp add: findTag_header_def read_tag_def vec_at_def ucast_mask5)
  then show ?thesis
    using assms by (subst findTag.simps) simp
qed

lemma findTag_long_form_wide_tag:
  assumes "b0 AND 0x1F = 0x1F" "l AND 0x80 \<noteq> 0" "length v = unat n"
  shows "findTag (b0 # b1 # l # n # v @ rest) (push_bit 8 (ucast b0) + ucast b1) = Inr v"
proof -
  have "findTag_header (b0 # b1 # l # n # v @ rest) =
          Inr (push_bit 8 (ucast b0) + ucast b1, unat n, 4)"
    using assms by (simp add: findTag_header_def read_tag_def vec_at_def ucast_mask5)
  then show ?thesis
    using assms by (subst findTag.simps) simp
qed

text \<open>
  C5, as amended. \<open>findTag\<close> takes any length byte with the high bit set as the
  announcement of exactly one more length byte, whatever its low seven bits say, and takes
  that byte (0 to 255) as the length: the value that follows is decoded. It does not fail
  on a length byte that announces more than one length byte.
\<close>

theorem findTag_long_form_one_byte:
  assumes "hdr = [x] \<and> x AND 0x1F \<noteq> 0x1F \<and> tag = ucast x \<or>
           hdr = [x, y] \<and> x AND 0x1F = 0x1F \<and> tag = push_bit 8 (ucast x) + ucast y"
    and "l AND 0x80 \<noteq> 0"
    and "length v = unat n"
  shows "findTag (hdr @ l # n # v @ rest) tag = Inr v"
  using assms findTag_long_form_short_tag [of x l v n rest]
    findTag_long_form_wide_tag [of x l v n y rest]
  by auto

theorem findTag_long_form_one_byte_witness:
  "findTag ([0x57] @ 0x82 # 0x02 # [0xAA, 0xBB] @ [0xCC]) 0x57 = Inr [0xAA, 0xBB]"
  using findTag_long_form_one_byte [where hdr = "[0x57]" and x = "0x57" and tag = "0x57"
      and l = "0x82" and n = "0x02" and v = "[0xAA, 0xBB]" and rest = "[0xCC]"]
  by simp

text \<open>
  C5 as stated fails: the length byte \<open>0x82\<close> announces two length bytes (here the
  length 256), and the decode produces a value instead of failing.
\<close>

theorem findTag_two_length_bytes_counterexample:
  "1 < spec_extra_length_bytes 0x82 \<and>
   findTag [0x57, 0x82, 0x01, 0x00, 0xAA] 0x57 = Inr [0x00]"
  by (simp add: spec_extra_length_bytes_def findTag.simps findTag_header_def read_tag_def
      vec_at_def)

subsection \<open>PDOL data\<close>

lemma constructPdolData_loop_consumes:
  "constructPdolData_loop pdol result = Inr (res, pdol') \<Longrightarrow>
   length pdol' < 2 \<and> (\<exists>k. pdol' = drop k pdol) \<and> (1 < length pdol \<longrightarrow> length pdol' < length pdol)"
proof (induction pdol result rule: constructPdolData_loop.induct)
  case (1 pdol result)
  show ?case
  proof (cases "1 < length pdol")
    case False
    with "1.prems" have "pdol' = pdol"
      by (subst (asm) constructPdolData_loop.simps) simp
    with False show ?thesis by (auto intro: exI [of _ 0])
  next
    case True
    from "1.prems" True obtain tag h len where
      rt: "read_tag pdol = Inr (tag, h)" and len: "vec_at pdol h = Inr len" and
      rec: "constructPdolData_loop (drop (h + 1) pdol) (result @ pdol_value tag (ucast len)) = Inr (res, pdol')"
      by (subst (asm) constructPdolData_loop.simps) (auto split: sum.splits)
    from "1.IH" [OF True rt refl len rec]
    have a: "length pdol' < 2" and b: "\<exists>k. pdol' = drop k (drop (h + 1) pdol)"
      and c: "1 < length (drop (h + 1) pdol) \<longrightarrow> length pdol' < length (drop (h + 1) pdol)"
      by auto
    from b obtain k where "pdol' = drop (k + (h + 1)) pdol" by auto
    then have "\<exists>k. pdol' = drop k pdol" by blast
    moreover have "length pdol' < length pdol" using a True by simp
    ultimately show ?thesis using a by simp
  qed
qed

text \<open>
  C7, as amended. \<open>constructPdolData\<close> consumes the request it is given by reference: a
  request of fewer than 2 bytes is left as it was, and the result is then empty; any other
  request is, when the call returns, a suffix of fewer than 2 bytes of what it was. So the
  caller finds its request unchanged exactly when it had fewer than 2 bytes.
\<close>

theorem constructPdolData_consumes_request:
  assumes "constructPdolData pdol = Inr (result, pdol')"
  shows "length pdol' < 2 \<and> (\<exists>k. pdol' = drop k pdol) \<and>
         (pdol' = pdol \<longleftrightarrow> length pdol < 2) \<and>
         (length pdol < 2 \<longrightarrow> result = [])"
proof (cases "length pdol < 2")
  case True
  with assms have "pdol' = pdol" and "result = []"
    by (simp_all add: constructPdolData_def)
  with True show ?thesis by (auto intro: exI [of _ 0])
next
  case False
  with assms have "constructPdolData_loop pdol [] = Inr (result, pdol')"
    by (simp add: constructPdolData_def)
  from constructPdolData_loop_consumes [OF this] False show ?thesis by auto
qed

text \<open>
  The request of the specification's test, tag \<open>0x9F1A\<close> with length 2, and a request
  of one byte.
\<close>

theorem constructPdolData_consumes_request_witness:
  "constructPdolData [0x9F, 0x1A, 0x02] = Inr ([0x02, 0x76], []) \<and>
   length ([] :: u8 list) < 2 \<and>
   ([] = [0x9F, 0x1A, 0x02 :: u8] \<longleftrightarrow> length [0x9F, 0x1A, 0x02 :: u8] < 2) \<and>
   constructPdolData [0x9F] = Inr ([], [0x9F])"
proof -
  have r: "constructPdolData [0x9F, 0x1A, 0x02] = Inr ([0x02, 0x76], [])"
    by (simp add: constructPdolData_def constructPdolData_loop.simps read_tag_def vec_at_def
        pdol_value_def)
  have q: "constructPdolData [0x9F] = Inr ([], [0x9F])"
    by (simp add: constructPdolData_def)
  show ?thesis
    using constructPdolData_consumes_request [OF r] constructPdolData_consumes_request [OF q]
      r q
    by simp
qed

text \<open>
  C7 as stated fails: after the call on the request \<open>9F 1A 02\<close> the caller's request is
  empty.
\<close>

theorem constructPdolData_erases_request_counterexample:
  "constructPdolData [0x9F, 0x1A, 0x02] = Inr ([0x02, 0x76], []) \<and>
   snd (projr (constructPdolData [0x9F, 0x1A, 0x02])) \<noteq> [0x9F, 0x1A, 0x02]"
  by (simp add: constructPdolData_def constructPdolData_loop.simps read_tag_def vec_at_def
      pdol_value_def)

subsection \<open>The flattening decoder\<close>

lemma parseTags_frees:
  "parseTags ber_data s = Inr s' \<Longrightarrow> unallocated_from s \<Longrightarrow>
   fresh s \<le> fresh s' \<and> store s' = store s \<and>
   (\<forall>tag a. tagMap s' tag = Some a \<longrightarrow> tagMap s tag = Some a \<or> fresh s \<le> a)"
proof (induction "length ber_data" arbitrary: ber_data s s' rule: less_induct)
  case less
  from less.prems(1) obtain tag h len8 where
    rt: "read_tag ber_data = Inr (tag, h)" and lb: "vec_at ber_data h = Inr len8"
    by (subst (asm) parseTags.simps) (auto split: sum.splits)
  define len where "len = unat len8"
  define headerLen where "headerLen = h + 1"
  define rest where "rest = drop (headerLen + len) ber_data"
  define val where "val = take len (drop headerLen ber_data)"
  define first where "first =
    (if length ber_data > len + headerLen
     then (case alloc rest s of
             (remainingData, s1) \<Rightarrow>
               (case parseTags rest s1 of
                  Inl e \<Rightarrow> Inl e
                | Inr s2 \<Rightarrow> Inr (free remainingData s2)))
     else Inr s)"
  have unf: "parseTags ber_data s =
    (case first of
       Inl e \<Rightarrow> Inl e
     | Inr s3 \<Rightarrow>
         if length ber_data \<ge> len + headerLen
         then (case alloc val s3 of
                 (tagValue, s4) \<Rightarrow>
                   if tag = 0x6F \<or> tag = 0xA5 \<or> tag = 0xBF0C \<or> tag = 0x61
                   then (case parseTags val (map_insert tag tagValue s4) of
                           Inl e \<Rightarrow> Inl e
                         | Inr s5 \<Rightarrow> Inr (free tagValue s5))
                   else Inr (free tagValue (map_insert tag tagValue s4)))
         else Inr s3)"
    unfolding first_def val_def rest_def len_def headerLen_def
    by (subst parseTags.simps) (simp only: rt lb sum.case prod.case Let_def)
  obtain s3 where s3: "first = Inr s3"
    using less.prems(1) unf by (cases first) auto
  have hpos: "0 < headerLen" by (simp add: headerLen_def)
  \<comment> \<open>the first block leaves the store as it was\<close>
  have A: "fresh s \<le> fresh s3 \<and> store s3 = store s \<and>
     (\<forall>tag a. tagMap s3 tag = Some a \<longrightarrow> tagMap s tag = Some a \<or> fresh s \<le> a)"
  proof (cases "length ber_data > len + headerLen")
    case False
    then show ?thesis using s3 by (simp add: first_def)
  next
    case True
    define s1 where "s1 = snd (alloc rest s)"
    have al: "alloc rest s = (fresh s, s1)" by (simp add: s1_def alloc_def)
    from s3 True al obtain s2 where s2: "parseTags rest s1 = Inr s2" and s3': "s3 = free (fresh s) s2"
      by (auto simp: first_def split: sum.splits)
    have lr: "length rest < length ber_data" using True hpos by (simp add: rest_def)
    have u1: "unallocated_from s1"
      using less.prems(2) by (auto simp: s1_def alloc_def unallocated_from_def)
    from less.hyps [OF lr s2 u1]
    have f: "fresh s1 \<le> fresh s2" and st: "store s2 = store s1"
      and tm: "\<forall>tag a. tagMap s2 tag = Some a \<longrightarrow> tagMap s1 tag = Some a \<or> fresh s1 \<le> a"
      by auto
    have "store s3 = store s"
      using st less.prems(2) by (auto simp: s3' free_def s1_def alloc_def unallocated_from_def)
    moreover have "fresh s \<le> fresh s3"
      using f by (simp add: s3' free_def s1_def alloc_def)
    moreover have "\<forall>tag a. tagMap s3 tag = Some a \<longrightarrow> tagMap s tag = Some a \<or> fresh s \<le> a"
      using tm by (fastforce simp: s3' free_def s1_def alloc_def)
    ultimately show ?thesis by simp
  qed
  then have u3: "unallocated_from s3"
    using less.prems(2) by (auto simp: unallocated_from_def)
  show ?case
  proof (cases "length ber_data \<ge> len + headerLen")
    case False
    then have "s' = s3" using less.prems(1) unf s3 by simp
    with A show ?thesis by simp
  next
    case True
    define s4 where "s4 = snd (alloc val s3)"
    have al: "alloc val s3 = (fresh s3, s4)" by (simp add: s4_def alloc_def)
    define s4' where "s4' = map_insert tag (fresh s3) s4"
    have u4: "unallocated_from s4'"
      using u3 by (auto simp: s4'_def s4_def alloc_def map_insert_def unallocated_from_def
          split: option.splits)
    have st4: "store s4' = (store s3)(fresh s3 \<mapsto> val)" and f4: "fresh s4' = fresh s3 + 1"
      by (auto simp: s4'_def s4_def alloc_def map_insert_def split: option.splits)
    have tm4: "\<forall>t a. tagMap s4' t = Some a \<longrightarrow> tagMap s3 t = Some a \<or> fresh s3 \<le> a"
      by (auto simp: s4'_def s4_def alloc_def map_insert_def split: option.splits if_splits)
    have B: "\<exists>s5. s' = free (fresh s3) s5 \<and> fresh s4' \<le> fresh s5 \<and> store s5 = store s4' \<and>
       (\<forall>t a. tagMap s5 t = Some a \<longrightarrow> tagMap s4' t = Some a \<or> fresh s4' \<le> a)"
    proof (cases "tag = 0x6F \<or> tag = 0xA5 \<or> tag = 0xBF0C \<or> tag = 0x61")
      case False
      then have "s' = free (fresh s3) s4'"
        using less.prems(1) unf s3 True al by (simp add: s4'_def)
      then show ?thesis by auto
    next
      case tmpl: True
      then obtain s5 where s5: "parseTags val s4' = Inr s5" and e: "s' = free (fresh s3) s5"
        using less.prems(1) unf s3 True al
        by (simp add: s4'_def split: sum.splits)
      have lv: "length val < length ber_data" using True hpos by (simp add: val_def)
      from less.hyps [OF lv s5 u4] e show ?thesis by auto
    qed
    then obtain s5 where e: "s' = free (fresh s3) s5" and f5: "fresh s4' \<le> fresh s5"
      and st5: "store s5 = store s4'"
      and tm5: "\<forall>t a. tagMap s5 t = Some a \<longrightarrow> tagMap s4' t = Some a \<or> fresh s4' \<le> a"
      by auto
    have "store s' = store s3"
      using u3 by (auto simp: e free_def st5 st4 unallocated_from_def)
    moreover have "fresh s3 \<le> fresh s'" using f5 f4 by (simp add: e free_def)
    moreover have "\<forall>t a. tagMap s' t = Some a \<longrightarrow> tagMap s3 t = Some a \<or> fresh s3 \<le> a"
      using tm5 tm4 f4 by (fastforce simp: e free_def)
    ultimately show ?thesis using A by (metis (no_types, lifting) le_trans)
  qed
qed

text \<open>
  C8. The claim does not hold of the code: every entry that \<open>parseTags\<close> adds to the
  map is the address of a vector that is destroyed before \<open>parseTags\<close> returns. Starting
  from a state whose addresses from \<open>fresh\<close> on are unused, an address that the map holds
  for a tag after the call and did not hold before is not in the store any more.
\<close>

theorem parseTags_entries_dangle:
  assumes "parseTags ber_data s = Inr s'" and "unallocated_from s"
    and "tagMap s' tag = Some a" and "tagMap s tag \<noteq> Some a"
  shows "store s' a = None"
proof -
  from parseTags_frees [OF assms(1,2)] assms(3,4)
  have "fresh s \<le> a" and "store s' = store s" by auto
  with assms(2) show ?thesis by (simp add: unallocated_from_def)
qed

theorem parseTags_entries_dangle_witness:
  "parseTags [0x57, 0x01, 0xAA] \<lparr>tagMap = Map.empty, store = Map.empty, fresh = 0\<rparr> =
     Inr \<lparr>tagMap = [0x57 \<mapsto> 0], store = Map.empty, fresh = 1\<rparr> \<and>
   store \<lparr>tagMap = [0x57 \<mapsto> 0], store = Map.empty, fresh = 1\<rparr> 0 = None"
proof -
  have r: "parseTags [0x57, 0x01, 0xAA] \<lparr>tagMap = Map.empty, store = Map.empty, fresh = 0\<rparr> =
     Inr \<lparr>tagMap = [0x57 \<mapsto> 0], store = Map.empty, fresh = 1\<rparr>"
    by (simp add: parseTags.simps read_tag_def vec_at_def alloc_def free_def map_insert_def)
  have u: "unallocated_from \<lparr>tagMap = Map.empty, store = Map.empty, fresh = 0\<rparr>"
    by (simp add: unallocated_from_def)
  show ?thesis
    using parseTags_entries_dangle [OF r u, of "0x57" 0] r by simp
qed

subsection \<open>The APDU exchange\<close>

text \<open>
  Given what the transport answers to the write and to the read, \<open>sendAPDU\<close> returns
  failure if the write fails, if the read fails, if the response has a first byte and it
  is not zero, and if the response has at least two bytes and the last two are not
  \<open>0x90, 0x00\<close>; it returns success exactly when the response has at least 3 bytes,
  starts with zero and ends with \<open>0x90, 0x00\<close>, and the response it hands back is then
  the one read without its first byte and its last two bytes.
\<close>

lemma sendAPDU_result:
  assumes "write_command tr ([PN532_COMMAND_INDATAEXCHANGE tr, 0x01] @ apdu) st = (written, st1)"
    and "read_response tr (PN532_COMMAND_INDATAEXCHANGE tr) response st1 = ((ok, resp), st2)"
  shows "(\<not> written \<longrightarrow> sendAPDU tr apdu response st = Inr (False, response, st1)) \<and>
         (written \<and> \<not> ok \<longrightarrow> sendAPDU tr apdu response st = Inr (False, resp, st2)) \<and>
         (written \<and> ok \<and> resp \<noteq> [] \<and> resp ! 0 \<noteq> 0x00 \<longrightarrow>
            sendAPDU tr apdu response st = Inr (False, resp, st2)) \<and>
         (written \<and> ok \<and> 2 \<le> length resp \<and>
          \<not> (resp ! (length resp - 2) = 0x90 \<and> resp ! (length resp - 1) = 0x00) \<longrightarrow>
            sendAPDU tr apdu response st = Inr (False, resp, st2)) \<and>
         (sendAPDU tr apdu response st = Inr (True, payload, st') \<longleftrightarrow>
            written \<and> ok \<and> 3 \<le> length resp \<and> resp ! 0 = 0x00 \<and>
            resp ! (length resp - 2) = 0x90 \<and> resp ! (length resp - 1) = 0x00 \<and>
            payload = take (length resp - 3) (drop 1 resp) \<and> st' = st2)"
proof -
  have len2: "resp ! 0 = 0x00 \<Longrightarrow> resp ! (length resp - 2) = 0x90 \<Longrightarrow> length resp \<noteq> 2"
    by auto
  show ?thesis
    using assms len2
    by (auto simp: sendAPDU_def vec_at_def)
qed

lemma sendAPDU_result_example:
  "sendAPDU scripted [0x00, 0xb2, 0x01, 0x0c, 0x00] [] \<lparr>replies = [[0x00, 0xAA, 0xBB, 0x90, 0x00]], sent = []\<rparr>
     = Inr (True, [0xAA, 0xBB], \<lparr>replies = [], sent = [[0x40, 0x01, 0x00, 0xb2, 0x01, 0x0c, 0x00]]\<rparr>)"
  using sendAPDU_result [of scripted "[0x00, 0xb2, 0x01, 0x0c, 0x00]"
      "\<lparr>replies = [[0x00, 0xAA, 0xBB, 0x90, 0x00]], sent = []\<rparr>" True
      "\<lparr>replies = [[0x00, 0xAA, 0xBB, 0x90, 0x00]], sent = [[0x40, 0x01, 0x00, 0xb2, 0x01, 0x0c, 0x00]]\<rparr>"
      "[]" True "[0x00, 0xAA, 0xBB, 0x90, 0x00]"
      "\<lparr>replies = [], sent = [[0x40, 0x01, 0x00, 0xb2, 0x01, 0x0c, 0x00]]\<rparr>"
      "[0xAA, 0xBB]" "\<lparr>replies = [], sent = [[0x40, 0x01, 0x00, 0xb2, 0x01, 0x0c, 0x00]]\<rparr>"]
  by (simp add: scripted_def)

text \<open>
  C9. The claim does not hold of the code for a response that was read successfully and
  is empty or the single byte \<open>0x00\<close>. Its last two bytes are not \<open>0x90, 0x00\<close>, so
  the claim asks for failure; \<open>sendAPDU\<close> reads outside the response instead: the element
  at index 0 of the empty response (line 297), the element at index
  \<^verbatim>\<open>response.size() - 2\<close> of the response of one byte (line 304).
\<close>

theorem sendAPDU_short_response_out_of_range:
  assumes "write_command tr ([PN532_COMMAND_INDATAEXCHANGE tr, 0x01] @ apdu) st = (True, st')"
    and "read_response tr (PN532_COMMAND_INDATAEXCHANGE tr) response st' = ((True, resp), st'')"
    and "resp = [] \<or> resp = [0x00]"
  shows "sendAPDU tr apdu response st = Inl OutOfRange"
  using assms by (auto simp: sendAPDU_def vec_at_def)

theorem sendAPDU_short_response_out_of_range_witness:
  "sendAPDU scripted [0x00, 0xb2, 0x01, 0x0c, 0x00] [] \<lparr>replies = [[0x00]], sent = []\<rparr>
     = Inl OutOfRange"
  using sendAPDU_short_response_out_of_range [where tr = scripted
      and apdu = "[0x00, 0xb2, 0x01, 0x0c, 0x00]" and response = "[]"
      and st = "\<lparr>replies = [[0x00]], sent = []\<rparr>"
      and st' = "\<lparr>replies = [[0x00]], sent = [[0x40, 0x01, 0x00, 0xb2, 0x01, 0x0c, 0x00]]\<rparr>"
      and resp = "[0x00]"
      and st'' = "\<lparr>replies = [], sent = [[0x40, 0x01, 0x00, 0xb2, 0x01, 0x0c, 0x00]]\<rparr>"]
  by (simp add: scripted_def)

subsection \<open>The read of an EMV card\<close>

text \<open>
  For every transport and every card, \<^verbatim>\<open>read_mifare_plus_bytes_\<close> returns
  \<^verbatim>\<open>false\<close> whenever it returns, and leaves \<open>data\<close> as it was.
\<close>

lemma read_mifare_plus_bytes_never_true:
  "read_mifare_plus_bytes k tr data st = Some (Inr (b, data', st')) \<Longrightarrow> \<not> b \<and> data' = data"
  by (auto simp: read_mifare_plus_bytes_def split: sum.splits option.splits if_splits prod.splits)

text \<open>
  The loop over the AFL stops in front of the last entry: at a position with no more than
  4 bytes left it sends nothing.
\<close>

lemma afl_loop_skips_last_entry:
  assumes "length afl \<le> unat pos + 4"
  shows "afl_loop k tr afl pos response st = Some (Inr (False, response, st))"
proof -
  have "\<not> unat pos < length afl - 4" using assms by arith
  then show ?thesis by (subst afl_loop.simps) simp
qed

text \<open>
  C1. The claim does not hold of the code. With a card that answers the PPSE select with
  an AID, the application select with a PDOL and GET PROCESSING OPTIONS with track 2
  data, three commands are sent and none of them is READ RECORD, and the track 2 field
  parses to the 16 digits of the PAN; but the read returns \<^verbatim>\<open>false\<close> and the
  caller's \<open>data\<close> is as before: the PAN is not returned.
\<close>

theorem read_track2_from_gpo_discarded:
  "read_mifare_plus_bytes emv scripted data
     \<lparr>replies = [ppse_reply, aid_reply, gpo_track2_reply], sent = []\<rparr> =
   Some (Inr (False, data,
     \<lparr>replies = [],
      sent = [[0x40, 0x01] @ select_ppse,
              [0x40, 0x01, 0x00, 0xa4, 0x04, 0x00, 0x07,
               0xA0, 0x00, 0x00, 0x00, 0x03, 0x10, 0x10, 0x00],
              [0x40, 0x01, 0x80, 0xa8, 0x00, 0x00, 0x04, 0x83, 0x02, 0x02, 0x76, 0x00]]\<rparr>)) \<and>
   findTag (take (length gpo_track2_reply - 3) (drop 1 gpo_track2_reply)) (EMV_TAG_TRACK2 emv) =
     Inr [0x44, 0x00, 0x66, 0x49, 0x87, 0x36, 0x60, 0x29, 0xD2] \<and>
   parse_track2 [0x44, 0x00, 0x66, 0x49, 0x87, 0x36, 0x60, 0x29, 0xD2] =
     Some [4, 4, 0, 0, 6, 6, 4, 9, 8, 7, 3, 6, 6, 0, 2, 9]"
  by (simp add: read_mifare_plus_bytes_def sendAPDU_3_def sendAPDU_def scripted_def emv_def
      select_ppse_def ppse_reply_def aid_reply_def gpo_track2_reply_def
      findTag.simps findTag_header_def read_tag_def vec_at_def is_template_def
      constructPdolData_def constructPdolData_loop.simps pdol_value_def
      parse_track2_def parse_nibbles_def parse_nibbles_loop.simps)

text \<open>
  C2. The claim does not hold of the code. First card: it answers GET PROCESSING OPTIONS
  with an AFL of one entry, \<open>08 01 01 00\<close> (file 1, record 1 to record 1), and would
  answer READ RECORD with a record that holds track 2 data. The AFL is accepted, yet no
  READ RECORD is sent: the three commands sent are the two selects and GET PROCESSING
  OPTIONS, and the reply of the record is still in the script. Second card: its AFL has
  two entries, \<open>08 01 01 00\<close> and \<open>10 01 01 00\<close>; the only READ RECORD sent is the one
  for record 1 of file 1 (\<open>00 B2 01 0C 00\<close>), none for file 2.
\<close>

theorem afl_last_entry_not_read:
  "read_mifare_plus_bytes emv scripted data
     \<lparr>replies = [ppse_reply, aid_reply, gpo_afl_reply, record_reply], sent = []\<rparr> =
   Some (Inr (False, data,
     \<lparr>replies = [record_reply],
      sent = [[0x40, 0x01] @ select_ppse,
              [0x40, 0x01, 0x00, 0xa4, 0x04, 0x00, 0x07,
               0xA0, 0x00, 0x00, 0x00, 0x03, 0x10, 0x10, 0x00],
              [0x40, 0x01, 0x80, 0xa8, 0x00, 0x00, 0x04, 0x83, 0x02, 0x02, 0x76, 0x00]]\<rparr>)) \<and>
   findTag (take (length gpo_afl_reply - 3) (drop 1 gpo_afl_reply)) 0x94 =
     Inr [0x08, 0x01, 0x01, 0x00] \<and>
   read_mifare_plus_bytes emv scripted data
     \<lparr>replies = [ppse_reply, aid_reply, gpo_afl2_reply, empty_reply, record_reply],
      sent = []\<rparr> =
   Some (Inr (False, data,
     \<lparr>replies = [record_reply],
      sent = [[0x40, 0x01] @ select_ppse,
              [0x40, 0x01, 0x00, 0xa4, 0x04, 0x00, 0x07,
               0xA0, 0x00, 0x00, 0x00, 0x03, 0x10, 0x10, 0x00],
              [0x40, 0x01, 0x80, 0xa8, 0x00, 0x00, 0x04, 0x83, 0x02, 0x02, 0x76, 0x00],
              [0x40, 0x01, 0x00, 0xb2, 0x01, 0x0c, 0x00]]\<rparr>))"
  by (simp add: read_mifare_plus_bytes_def sendAPDU_3_def sendAPDU_def scripted_def emv_def
      select_ppse_def ppse_reply_def aid_reply_def gpo_afl_reply_def gpo_afl2_reply_def
      empty_reply_def record_reply_def
      findTag.simps findTag_header_def read_tag_def vec_at_def is_template_def
      constructPdolData_def constructPdolData_loop.simps pdol_value_def
      afl_loop.simps read_records.simps record_has_pan_def word_le_nat_alt)

end
